theory Spec2Isabelle
  imports Main
begin

section \<open>Python primitives used by the two modules\<close>

text \<open>
  Python integers are unbounded, so they are \<^typ>\<open>int\<close>. A Python list of integers is an
  \<^typ>\<open>int list\<close>. The only exception the modelled code can raise is the \<open>IndexError\<close>
  of an item assignment \<open>array[index] = value\<close>.
\<close>

datatype error = IndexError

text \<open>
  One bound of a slice \<open>xs[lo:hi]\<close>: a negative bound counts from the end, and the result
  is clamped into \<open>0..len(xs)\<close>. Slicing never raises.
\<close>

definition py_slice_bound :: "int \<Rightarrow> nat \<Rightarrow> nat" where
  "py_slice_bound i n =
     (if i < 0 then (if i + int n < 0 then 0 else nat (i + int n))
      else if int n < i then n else nat i)"

definition py_slice :: "'a list \<Rightarrow> int \<Rightarrow> int \<Rightarrow> 'a list" where
  "py_slice xs lo hi =
     (let s = py_slice_bound lo (length xs);
          e = py_slice_bound hi (length xs)
      in take (e - s) (drop s xs))"

text \<open>
  Item assignment \<open>xs[i] = v\<close>: indices \<open>-len(xs) .. len(xs) - 1\<close> are accepted (negative
  ones count from the end), every other index raises \<open>IndexError\<close> and leaves the list as
  it was.
\<close>

definition py_setitem :: "'a list \<Rightarrow> int \<Rightarrow> 'a \<Rightarrow> error + 'a list" where
  "py_setitem xs i v =
     (let n = int (length xs); j = (if i < 0 then i + n else i)
      in if 0 \<le> j \<and> j < n then Inr (xs[nat j := v]) else Inl IndexError)"

section \<open>task\_1: range sums over an array, with and without an LRU cache\<close>

subsection \<open>Functions without a cache\<close>

text \<open>\<open>range_sum_no_cache(array, L, R)\<close> is \<open>sum(array[L:R + 1])\<close>.\<close>

definition range_sum_no_cache :: "int list \<Rightarrow> int \<Rightarrow> int \<Rightarrow> int" where
  "range_sum_no_cache array L R = sum_list (py_slice array L (R + 1))"

text \<open>\<open>update_no_cache(array, index, value)\<close> is \<open>array[index] = value\<close>.\<close>

definition update_no_cache :: "int list \<Rightarrow> int \<Rightarrow> int \<Rightarrow> error + int list" where
  "update_no_cache array index v = py_setitem array index v"

subsection \<open>The ordered dictionary behind the cache\<close>

text \<open>
  An \<open>OrderedDict\<close> is an association list in insertion order, oldest entry first, with
  one entry per key. \<open>od_setitem\<close> is \<open>d[key] = value\<close>: an existing key keeps its place
  and takes the new value, a new key is appended.
\<close>

type_synonym ('k, 'v) ordered_dict = "('k \<times> 'v) list"

fun od_setitem :: "'k \<Rightarrow> 'v \<Rightarrow> ('k, 'v) ordered_dict \<Rightarrow> ('k, 'v) ordered_dict" where
  "od_setitem key v [] = [(key, v)]"
| "od_setitem key v ((k, w) # d) =
     (if k = key then (k, v) # d else (k, w) # od_setitem key v d)"

text \<open>
  \<open>d.move_to_end(key)\<close> takes the entry out and appends it. Python raises \<open>KeyError\<close> for
  an absent key; both call sites run it on a key that is present (\<open>get\<close> after the
  membership test, \<open>put\<close> right after the assignment), so the absent case leaves the
  dictionary alone here and lemma \<open>od_setitem_present\<close> below shows it is not reached
  from \<open>put\<close>.
\<close>

definition od_move_to_end :: "'k \<Rightarrow> ('k, 'v) ordered_dict \<Rightarrow> ('k, 'v) ordered_dict" where
  "od_move_to_end key d =
     (case map_of d key of
        None \<Rightarrow> d
      | Some v \<Rightarrow> filter (\<lambda>p. fst p \<noteq> key) d @ [(key, v)])"

text \<open>
  \<open>d.popitem(last=False)\<close> drops the oldest entry. \<open>put\<close> calls it only on a dictionary
  that holds the key just stored, so the empty case (a \<open>KeyError\<close> in Python) is not
  reached.
\<close>

fun od_popitem_first :: "('k, 'v) ordered_dict \<Rightarrow> ('k, 'v) ordered_dict" where
  "od_popitem_first [] = []"
| "od_popitem_first (p # d) = d"

subsection \<open>Class \<open>LRUCache\<close>\<close>

record ('k, 'v) LRUCache =
  capacity :: int
  cache :: "('k, 'v) ordered_dict"

text \<open>
  \<open>__init__(self, capacity=1000)\<close> stores the capacity and an empty dictionary. It has no
  check and no \<open>raise\<close>; the result type carries the error alternative so that a failing
  construction can be spoken about.
\<close>

definition LRUCache_init :: "int \<Rightarrow> error + ('k, 'v) LRUCache" where
  "LRUCache_init cap = Inr \<lparr>capacity = cap, cache = []\<rparr>"

text \<open>\<open>get\<close>: \<open>None\<close> and no change on a miss; on a hit the key moves to the end.\<close>

definition get :: "'k \<Rightarrow> ('k, 'v) LRUCache \<Rightarrow> 'v option \<times> ('k, 'v) LRUCache" where
  "get key c =
     (case map_of (cache c) key of
        None \<Rightarrow> (None, c)
      | Some v \<Rightarrow>
          (let d = od_move_to_end key (cache c)
           in (map_of d key, c\<lparr>cache := d\<rparr>)))"

text \<open>\<open>put\<close>: store, move to the end, and drop the oldest entry when over capacity.\<close>

definition put :: "'k \<Rightarrow> 'v \<Rightarrow> ('k, 'v) LRUCache \<Rightarrow> ('k, 'v) LRUCache" where
  "put key v c =
     (let d1 = od_setitem key v (cache c);
          d2 = od_move_to_end key d1
      in if capacity c < int (length d2)
         then c\<lparr>cache := od_popitem_first d2\<rparr>
         else c\<lparr>cache := d2\<rparr>)"

text \<open>
  \<open>invalidate\<close>: collect the keys that satisfy the condition, then delete each of them.
  \<open>od_delitem\<close> is \<open>del d[k]\<close> for a key that is present.
\<close>

definition od_delitem :: "'k \<Rightarrow> ('k, 'v) ordered_dict \<Rightarrow> ('k, 'v) ordered_dict" where
  "od_delitem key d = filter (\<lambda>p. fst p \<noteq> key) d"

definition invalidate :: "('k \<Rightarrow> bool) \<Rightarrow> ('k, 'v) LRUCache \<Rightarrow> ('k, 'v) LRUCache" where
  "invalidate condition_func c =
     (let keys_to_remove = filter condition_func (map fst (cache c))
      in c\<lparr>cache := fold od_delitem keys_to_remove (cache c)\<rparr>)"

subsection \<open>Functions with a cache\<close>

text \<open>
  \<open>range_sum_with_cache\<close>: a cached value is returned as it is; otherwise the sum of the
  slice is computed, stored under \<open>(L, R)\<close> and returned.
\<close>

definition range_sum_with_cache ::
  "int list \<Rightarrow> int \<Rightarrow> int \<Rightarrow> (int \<times> int, int) LRUCache \<Rightarrow> int \<times> (int \<times> int, int) LRUCache" where
  "range_sum_with_cache array L R lru_cache =
     (case get (L, R) lru_cache of
        (Some cached_value, c1) \<Rightarrow> (cached_value, c1)
      | (None, c1) \<Rightarrow>
          (let s = sum_list (py_slice array L (R + 1))
           in (s, put (L, R) s c1)))"

text \<open>
  \<open>update_with_cache\<close>: the assignment comes first, so an \<open>IndexError\<close> leaves the cache
  untouched; then every key \<open>(L, R)\<close> with \<open>L \<le> index \<le> R\<close> is invalidated.
\<close>

definition condition :: "int \<Rightarrow> int \<times> int \<Rightarrow> bool" where
  "condition index key = (case key of (L, R) \<Rightarrow> L \<le> index \<and> index \<le> R)"

definition update_with_cache ::
  "int list \<Rightarrow> int \<Rightarrow> int \<Rightarrow> (int \<times> int, int) LRUCache
     \<Rightarrow> error + (int list \<times> (int \<times> int, int) LRUCache)" where
  "update_with_cache array index v lru_cache =
     (case py_setitem array index v of
        Inl e \<Rightarrow> Inl e
      | Inr array' \<Rightarrow> Inr (array', invalidate (condition index) lru_cache))"

text \<open>
  What the caller holds when an update ends, normally or by the exception: the outcome
  (\<open>None\<close> for a normal return, the error otherwise) together with the array and the
  cache as the call leaves them. The item assignment checks the index before it writes,
  so when it raises the array is as it was; the exception leaves the function at that
  statement, so \<open>invalidate\<close>, the statement after it, has not run and the cache is as
  it was.
\<close>

definition update_no_cache_outcome ::
  "int list \<Rightarrow> int \<Rightarrow> int \<Rightarrow> error option \<times> int list" where
  "update_no_cache_outcome array index v =
     (case py_setitem array index v of
        Inl e \<Rightarrow> (Some e, array)
      | Inr array' \<Rightarrow> (None, array'))"

definition update_with_cache_outcome ::
  "int list \<Rightarrow> int \<Rightarrow> int \<Rightarrow> (int \<times> int, int) LRUCache
     \<Rightarrow> error option \<times> int list \<times> (int \<times> int, int) LRUCache" where
  "update_with_cache_outcome array index v lru_cache =
     (case py_setitem array index v of
        Inl e \<Rightarrow> (Some e, array, lru_cache)
      | Inr array' \<Rightarrow> (None, array', invalidate (condition index) lru_cache))"

subsection \<open>The two query loops of \<open>main\<close>\<close>

text \<open>
  \<open>main\<close> runs one list of queries twice, once on each pair of functions. The loops are
  modelled with the sums of the range queries collected in order; an \<open>IndexError\<close> ends
  the run, as the uncaught exception does.
\<close>

datatype query = Range int int | Update int int

fun run_no_cache :: "int list \<Rightarrow> query list \<Rightarrow> error + int list" where
  "run_no_cache array [] = Inr []"
| "run_no_cache array (Range L R # qs) =
     (case run_no_cache array qs of
        Inl e \<Rightarrow> Inl e
      | Inr out \<Rightarrow> Inr (range_sum_no_cache array L R # out))"
| "run_no_cache array (Update idx val # qs) =
     (case update_no_cache array idx val of
        Inl e \<Rightarrow> Inl e
      | Inr array' \<Rightarrow> run_no_cache array' qs)"

fun run_with_cache ::
  "int list \<Rightarrow> (int \<times> int, int) LRUCache \<Rightarrow> query list \<Rightarrow> error + int list" where
  "run_with_cache array c [] = Inr []"
| "run_with_cache array c (Range L R # qs) =
     (case range_sum_with_cache array L R c of
        (s, c') \<Rightarrow>
          (case run_with_cache array c' qs of
             Inl e \<Rightarrow> Inl e
           | Inr out \<Rightarrow> Inr (s # out)))"
| "run_with_cache array c (Update idx val # qs) =
     (case update_with_cache array idx val c of
        Inl e \<Rightarrow> Inl e
      | Inr (array', c') \<Rightarrow> run_with_cache array' c' qs)"

text \<open>A query is in range for an array of length \<open>n\<close> when its bounds are indices of it.\<close>

fun query_in_range :: "nat \<Rightarrow> query \<Rightarrow> bool" where
  "query_in_range n (Range L R) = (0 \<le> L \<and> L \<le> R \<and> R < int n)"
| "query_in_range n (Update idx val) = (0 \<le> idx \<and> idx < int n)"

text \<open>Calls on a cache object, for statements about any sequence of them.\<close>

datatype ('k, 'v) cache_call = Get 'k | Put 'k 'v | Invalidate "'k \<Rightarrow> bool"

fun do_cache_call :: "('k, 'v) LRUCache \<Rightarrow> ('k, 'v) cache_call \<Rightarrow> ('k, 'v) LRUCache" where
  "do_cache_call c (Get k) = snd (get k c)"
| "do_cache_call c (Put k v) = put k v c"
| "do_cache_call c (Invalidate f) = invalidate f c"

text \<open>A run of \<open>put\<close> calls, one per pair, with no other call in between.\<close>

definition put_all :: "('k, 'v) LRUCache \<Rightarrow> ('k \<times> 'v) list \<Rightarrow> ('k, 'v) LRUCache" where
  "put_all c kvs = foldl do_cache_call c (map (\<lambda>(k, v). Put k v) kvs)"

text \<open>
  A cache agrees with an array when every entry has a key \<open>(L, R)\<close> with
  \<open>0 \<le> L \<le> R < len(array)\<close> and holds the sum of \<open>array[L..R]\<close>.
\<close>

definition cache_sound :: "int list \<Rightarrow> (int \<times> int, int) LRUCache \<Rightarrow> bool" where
  "cache_sound array c =
     list_all (\<lambda>(key, s). query_in_range (length array) (Range (fst key) (snd key))
                 \<and> s = range_sum_no_cache array (fst key) (snd key)) (cache c)"

section \<open>task\_2: a splay tree as a memo table for Fibonacci numbers\<close>

subsection \<open>Class \<open>SplayNode\<close> and the rotations\<close>

text \<open>
  A node owns its two subtrees and nothing else refers to them, so the linked structure is
  a tree datatype; \<open>Leaf\<close> is Python's \<open>None\<close>. A \<open>SplayTree\<close> object holds one field,
  \<open>root\<close>, and is identified with it.
\<close>

datatype ('k, 'v) SplayNode =
  Leaf
| Node (left: "('k, 'v) SplayNode") (key: 'k) (val: 'v) (right: "('k, 'v) SplayNode")

text \<open>
  \<open>_right_rotate(x)\<close> needs \<open>x.left\<close> to be a node and \<open>_left_rotate(x)\<close> needs \<open>x.right\<close>
  to be one (Python fails with \<open>AttributeError\<close> otherwise). Every call in \<open>_splay\<close> is
  behind a test that the child is there, so the last equation of each is never used by it.
\<close>

fun right_rotate :: "('k, 'v) SplayNode \<Rightarrow> ('k, 'v) SplayNode" where
  "right_rotate (Node (Node a yk yv b) xk xv c) = Node a yk yv (Node b xk xv c)"
| "right_rotate x = x"

fun left_rotate :: "('k, 'v) SplayNode \<Rightarrow> ('k, 'v) SplayNode" where
  "left_rotate (Node a xk xv (Node b yk yv c)) = Node (Node a xk xv b) yk yv c"
| "left_rotate x = x"

subsection \<open>\<open>_splay\<close>, \<open>search\<close> and \<open>insert\<close>\<close>

text \<open>
  \<open>_splay(root, key)\<close>, branch by branch: the zig-zig step splays the grandchild, puts
  it back and rotates the root once; the zig-zag step splays the inner grandchild and
  rotates the child when the result is a node; a child whose key is the target needs
  neither. The closing line of each side rotates once more whenever the child is there.
\<close>

fun splay :: "('k::linorder, 'v) SplayNode \<Rightarrow> 'k \<Rightarrow> ('k, 'v) SplayNode" where
  "splay Leaf target = Leaf"
| "splay (Node l k v r) target =
     (if k = target then Node l k v r
      else if target < k then
        (case l of
           Leaf \<Rightarrow> Node l k v r
         | Node ll lk lv lr \<Rightarrow>
             (let root1 =
                (if target < lk then
                   right_rotate (Node (Node (splay ll target) lk lv lr) k v r)
                 else if lk < target then
                   (let lr' = splay lr target
                    in if lr' \<noteq> Leaf
                       then Node (left_rotate (Node ll lk lv lr')) k v r
                       else Node (Node ll lk lv lr') k v r)
                 else Node l k v r)
              in if left root1 = Leaf then root1 else right_rotate root1))
      else
        (case r of
           Leaf \<Rightarrow> Node l k v r
         | Node rl rk rv rr \<Rightarrow>
             (let root1 =
                (if rk < target then
                   left_rotate (Node l k v (Node rl rk rv (splay rr target)))
                 else if target < rk then
                   (let rl' = splay rl target
                    in if rl' \<noteq> Leaf
                       then Node l k v (right_rotate (Node rl' rk rv rr))
                       else Node l k v (Node rl' rk rv rr))
                 else Node l k v r)
              in if right root1 = Leaf then root1 else left_rotate root1)))"

text \<open>
  \<open>search(key)\<close> replaces the root by the splayed tree and returns the root's value when
  the root carries the key, \<open>None\<close> otherwise.
\<close>

definition search ::
  "'k::linorder \<Rightarrow> ('k, 'v) SplayNode \<Rightarrow> 'v option \<times> ('k, 'v) SplayNode" where
  "search target t =
     (let root = splay t target
      in case root of
           Leaf \<Rightarrow> (None, root)
         | Node l k v r \<Rightarrow> (if k = target then (Some v, root) else (None, root)))"

text \<open>
  \<open>insert(key, value)\<close>: a sole node for the empty tree; otherwise splay, then either
  overwrite the root's value or cut the tree at the root and hang both parts under a new
  root. The splay of a non-empty tree is non-empty (lemma \<open>splay_Leaf_iff\<close>), so the
  \<open>Leaf\<close> case after the splay is not reached.
\<close>

definition insert_splay ::
  "'k::linorder \<Rightarrow> 'v \<Rightarrow> ('k, 'v) SplayNode \<Rightarrow> ('k, 'v) SplayNode" where
  "insert_splay new_key new_val t =
     (if t = Leaf then Node Leaf new_key new_val Leaf
      else
        (case splay t new_key of
           Leaf \<Rightarrow> Leaf
         | Node l k v r \<Rightarrow>
             if k = new_key then Node l k new_val r
             else if new_key < k then Node l new_key new_val (Node Leaf k v r)
             else Node (Node l k v Leaf) new_key new_val r))"

text \<open>Calls on a tree object, for statements about any sequence of them.\<close>

datatype ('k, 'v) tree_call = Insert 'k 'v | Search 'k

fun do_tree_call :: "('k::linorder, 'v) SplayNode \<Rightarrow> ('k, 'v) tree_call \<Rightarrow> ('k, 'v) SplayNode" where
  "do_tree_call t (Insert k v) = insert_splay k v t"
| "do_tree_call t (Search k) = snd (search k t)"

text \<open>The stored pairs in in-order, and the ordering invariant on their keys.\<close>

fun entries :: "('k, 'v) SplayNode \<Rightarrow> ('k \<times> 'v) list" where
  "entries Leaf = []"
| "entries (Node l k v r) = entries l @ (k, v) # entries r"

definition keys :: "('k, 'v) SplayNode \<Rightarrow> 'k list" where
  "keys t = map fst (entries t)"

definition bst :: "('k::linorder, 'v) SplayNode \<Rightarrow> bool" where
  "bst t = sorted_wrt (<) (keys t)"

subsection \<open>\<open>fibonacci_splay\<close>\<close>

text \<open>
  \<open>fibonacci_splay(n, tree)\<close> returns its result and leaves the tree changed, so the model
  returns both. The recursion goes down from \<open>n\<close> to \<open>n - 1\<close> and \<open>n - 2\<close> only while
  \<open>2 \<le> n\<close>.
\<close>

function fibonacci_splay :: "int \<Rightarrow> (int, int) SplayNode \<Rightarrow> int \<times> (int, int) SplayNode" where
  "fibonacci_splay n tree =
     (case search n tree of
        (Some cached_val, t1) \<Rightarrow> (cached_val, t1)
      | (None, t1) \<Rightarrow>
          (if n < 2 then (n, insert_splay n n t1)
           else
             (case fibonacci_splay (n - 1) t1 of
                (a, t2) \<Rightarrow>
                  (case fibonacci_splay (n - 2) t2 of
                     (b, t3) \<Rightarrow> (a + b, insert_splay n (a + b) t3)))))"
  by pat_completeness auto
termination
  by (relation "measure (\<lambda>(n, tree). nat n)") auto

text \<open>The Fibonacci numbers as the specification gives them.\<close>

fun fib :: "nat \<Rightarrow> int" where
  "fib 0 = 0"
| "fib (Suc 0) = 1"
| "fib (Suc (Suc n)) = fib (Suc n) + fib n"

text \<open>
  A memo table is sound when every pair stored under a non-negative key is a Fibonacci
  pair. Negative keys are never looked up by a call with \<open>n \<ge> 0\<close>.
\<close>

definition memo_ok :: "(int, int) SplayNode \<Rightarrow> bool" where
  "memo_ok t = list_all (\<lambda>(k, v). 0 \<le> k \<longrightarrow> v = fib (nat k)) (entries t)"

section \<open>Properties of the splay tree\<close>

subsection \<open>Rotations and the equations of \<open>_splay\<close>, case by case\<close>

lemma entries_right_rotate: "entries (right_rotate t) = entries t"
  by (induction t rule: right_rotate.induct) simp_all

lemma entries_left_rotate: "entries (left_rotate t) = entries t"
  by (induction t rule: left_rotate.induct) simp_all

lemma splay_root: "splay (Node l k v r) k = Node l k v r"
  by simp

lemma splay_lt_Leaf: "x < k \<Longrightarrow> splay (Node Leaf k v r) x = Node Leaf k v r"
  by auto

lemma splay_lt_child: "x < k \<Longrightarrow> splay (Node (Node ll x lv lr) k v r) x = Node ll x lv (Node lr k v r)"
  by auto

lemma splay_lt_lt: "x < k \<Longrightarrow> x < lk \<Longrightarrow> splay (Node (Node ll lk lv lr) k v r) x =
  (case splay ll x of Leaf \<Rightarrow> Node Leaf lk lv (Node lr k v r)
   | Node a y w b \<Rightarrow> Node a y w (Node b lk lv (Node lr k v r)))"
  by (auto simp: Let_def not_less_iff_gr_or_eq split: SplayNode.split)

lemma splay_lt_gt: "x < k \<Longrightarrow> lk < x \<Longrightarrow> splay (Node (Node ll lk lv lr) k v r) x =
  (case splay lr x of Leaf \<Rightarrow> Node ll lk lv (Node Leaf k v r)
   | Node a y w b \<Rightarrow> Node (Node ll lk lv a) y w (Node b k v r))"
  by (auto simp: Let_def not_less_iff_gr_or_eq split: SplayNode.split)

lemma splay_gt_Leaf: "k < x \<Longrightarrow> splay (Node l k v Leaf) x = Node l k v Leaf"
  by (auto simp: not_less_iff_gr_or_eq)

lemma splay_gt_child: "k < x \<Longrightarrow> splay (Node l k v (Node rl x rv rr)) x = Node (Node l k v rl) x rv rr"
  by (auto simp: not_less_iff_gr_or_eq)

lemma splay_gt_gt: "k < x \<Longrightarrow> rk < x \<Longrightarrow> splay (Node l k v (Node rl rk rv rr)) x =
  (case splay rr x of Leaf \<Rightarrow> Node (Node l k v rl) rk rv Leaf
   | Node a y w b \<Rightarrow> Node (Node (Node l k v rl) rk rv a) y w b)"
  by (auto simp: Let_def not_less_iff_gr_or_eq split: SplayNode.split)

lemma splay_gt_lt: "k < x \<Longrightarrow> x < rk \<Longrightarrow> splay (Node l k v (Node rl rk rv rr)) x =
  (case splay rl x of Leaf \<Rightarrow> Node (Node l k v Leaf) rk rv rr
   | Node a y w b \<Rightarrow> Node (Node l k v a) y w (Node b rk rv rr))"
  by (auto simp: Let_def not_less_iff_gr_or_eq split: SplayNode.split)

subsection \<open>Induction along the cases of \<open>_splay\<close>\<close>

lemma splay_cases_induct [case_names Leaf root lt_Leaf lt_child lt_lt lt_gt gt_Leaf gt_child gt_gt gt_lt]:
  fixes P :: "('k::linorder, 'v) SplayNode \<Rightarrow> 'k \<Rightarrow> bool"
  assumes Leaf: "\<And>x. P Leaf x"
    and root: "\<And>l k v r. P (Node l k v r) k"
    and lt_Leaf: "\<And>k v r x. x < k \<Longrightarrow> P (Node Leaf k v r) x"
    and lt_child: "\<And>ll lv lr k v r x. x < k \<Longrightarrow> P (Node (Node ll x lv lr) k v r) x"
    and lt_lt: "\<And>ll lk lv lr k v r x. x < k \<Longrightarrow> x < lk \<Longrightarrow> P ll x \<Longrightarrow> P (Node (Node ll lk lv lr) k v r) x"
    and lt_gt: "\<And>ll lk lv lr k v r x. x < k \<Longrightarrow> lk < x \<Longrightarrow> P lr x \<Longrightarrow> P (Node (Node ll lk lv lr) k v r) x"
    and gt_Leaf: "\<And>l k v x. k < x \<Longrightarrow> P (Node l k v Leaf) x"
    and gt_child: "\<And>l k v rl rv rr x. k < x \<Longrightarrow> P (Node l k v (Node rl x rv rr)) x"
    and gt_gt: "\<And>l k v rl rk rv rr x. k < x \<Longrightarrow> rk < x \<Longrightarrow> P rr x \<Longrightarrow> P (Node l k v (Node rl rk rv rr)) x"
    and gt_lt: "\<And>l k v rl rk rv rr x. k < x \<Longrightarrow> x < rk \<Longrightarrow> P rl x \<Longrightarrow> P (Node l k v (Node rl rk rv rr)) x"
  shows "P t x"
proof (induction t x rule: splay.induct)
  case (1 target)
  show ?case by (rule Leaf)
next
  case (2 l k v r target)
  consider (eq) "k = target" | (lt) "target < k" | (gt) "k < target"
    by (metis not_less_iff_gr_or_eq)
  then show ?case
  proof cases
    case eq
    then show ?thesis using root by simp
  next
    case lt
    show ?thesis
    proof (cases l)
      case Leaf
      then show ?thesis using lt lt_Leaf by simp
    next
      case (Node ll lk lv lr)
      consider (ceq) "lk = target" | (clt) "target < lk" | (cgt) "lk < target"
        by (metis not_less_iff_gr_or_eq)
      then show ?thesis
      proof cases
        case ceq
        then show ?thesis using lt Node lt_child by simp
      next
        case clt
        have "P ll target" using "2.IH"(1)[OF _ lt Node clt] lt by blast
        then show ?thesis using lt clt Node lt_lt by simp
      next
        case cgt
        have "\<not> target < lk" using cgt by simp
        then have "P lr target" using "2.IH"(2)[OF _ lt Node _ cgt] lt by blast
        then show ?thesis using lt cgt Node lt_gt by simp
      qed
    qed
  next
    case gt
    then have ngt: "\<not> target < k" and ne: "k \<noteq> target" by simp_all
    show ?thesis
    proof (cases r)
      case Leaf
      then show ?thesis using gt gt_Leaf by simp
    next
      case (Node rl rk rv rr)
      consider (ceq) "rk = target" | (clt) "target < rk" | (cgt) "rk < target"
        by (metis not_less_iff_gr_or_eq)
      then show ?thesis
      proof cases
        case ceq
        then show ?thesis using gt Node gt_child by simp
      next
        case cgt
        have "P rr target" by (rule "2.IH"(3)[OF ne ngt Node cgt])
        then show ?thesis using gt cgt Node gt_gt by simp
      next
        case clt
        have "\<not> rk < target" using clt by simp
        then have "P rl target" using "2.IH"(4)[OF ne ngt Node _ clt] by blast
        then show ?thesis using gt clt Node gt_lt by simp
      qed
    qed
  qed
qed

lemmas splay_eqs = splay_root splay_lt_Leaf splay_lt_child splay_lt_lt splay_lt_gt
  splay_gt_Leaf splay_gt_child splay_gt_gt splay_gt_lt

declare splay.simps(2) [simp del]

lemma splay_Leaf_iff: "(splay t x = Leaf) = (t = Leaf)"
  by (induction t x rule: splay_cases_induct)
     (simp_all add: splay_eqs del: splay.simps(2) split: SplayNode.split)

lemma entries_splay: "entries (splay t x) = entries t"
  by (induction t x rule: splay_cases_induct)
     (auto simp add: splay_eqs simp del: splay.simps(2) split: SplayNode.split)

lemma keys_splay: "keys (splay t x) = keys t"
  by (simp add: keys_def entries_splay)

lemma keys_Node: "keys (Node l k v r) = keys l @ k # keys r"
  by (simp add: keys_def)

lemma keys_Leaf: "keys Leaf = []"
  by (simp add: keys_def)

lemma bst_Node: "bst (Node l k v r) =
  (bst l \<and> bst r \<and> (\<forall>a\<in>set (keys l). a < k) \<and> (\<forall>b\<in>set (keys r). k < b))"
  by (auto simp: bst_def keys_Node sorted_wrt_append intro: less_trans)

lemma bst_Leaf: "bst Leaf"
  by (simp add: bst_def keys_Leaf)

lemma bst_splay: "bst (splay t x) = bst t"
  by (simp add: bst_def keys_splay)

lemma splay_bounds:
  "bst t \<Longrightarrow> splay t x = Node a y w b \<Longrightarrow>
     (\<forall>z\<in>set (keys a). z < y) \<and> (\<forall>z\<in>set (keys b). y < z) \<and> bst a \<and> bst b"
  using bst_splay[of t x] by (simp add: bst_Node)

lemma splay_split:
  "bst t \<Longrightarrow> splay t x = Node a y w b \<Longrightarrow>
     (x < y \<longrightarrow> (\<forall>z\<in>set (keys a). z < x)) \<and> (y < x \<longrightarrow> (\<forall>z\<in>set (keys b). x < z))"
proof (induction t x arbitrary: a y w b rule: splay_cases_induct)
  case (lt_lt ll lk lv lr k v r x)
  show ?case
  proof (cases "splay ll x")
    case Leaf
    then show ?thesis using lt_lt.prems lt_lt.hyps by (auto simp: splay_lt_lt keys_Leaf; blast intro: less_trans)
  next
    case (Node a' y' w' b')
    have "bst ll" using lt_lt.prems(1) by (simp add: bst_Node)
    from lt_lt.IH[OF this Node] lt_lt.prems lt_lt.hyps Node show ?thesis
      by (auto simp: splay_lt_lt keys_Node bst_Node; blast intro: less_trans)
  qed
next
  case (lt_gt ll lk lv lr k v r x)
  show ?case
  proof (cases "splay lr x")
    case Leaf
    then show ?thesis using lt_gt.prems lt_gt.hyps by (auto simp: splay_lt_gt keys_Node keys_Leaf bst_Node; blast intro: less_trans)
  next
    case (Node a' y' w' b')
    have "bst lr" using lt_gt.prems(1) by (simp add: bst_Node)
    from lt_gt.IH[OF this Node] lt_gt.prems lt_gt.hyps Node show ?thesis
      by (auto simp: splay_lt_gt keys_Node bst_Node; blast intro: less_trans)
  qed
next
  case (gt_gt l k v rl rk rv rr x)
  show ?case
  proof (cases "splay rr x")
    case Leaf
    then show ?thesis using gt_gt.prems gt_gt.hyps by (auto simp: splay_gt_gt keys_Leaf; blast intro: less_trans)
  next
    case (Node a' y' w' b')
    have "bst rr" using gt_gt.prems(1) by (simp add: bst_Node)
    from gt_gt.IH[OF this Node] gt_gt.prems gt_gt.hyps Node show ?thesis
      by (auto simp: splay_gt_gt keys_Node bst_Node; blast intro: less_trans)
  qed
next
  case (gt_lt l k v rl rk rv rr x)
  show ?case
  proof (cases "splay rl x")
    case Leaf
    then show ?thesis using gt_lt.prems gt_lt.hyps by (auto simp: splay_gt_lt keys_Node keys_Leaf bst_Node; blast intro: less_trans)
  next
    case (Node a' y' w' b')
    have "bst rl" using gt_lt.prems(1) by (simp add: bst_Node)
    from gt_lt.IH[OF this Node] gt_lt.prems gt_lt.hyps Node show ?thesis
      by (auto simp: splay_gt_lt keys_Node bst_Node; blast intro: less_trans)
  qed
qed (auto simp: splay_eqs keys_Leaf)

subsection \<open>\<open>search\<close> and \<open>insert\<close> on ordered trees\<close>

lemma entries_search: "entries (snd (search x t)) = entries t"
proof -
  have "snd (search x t) = splay t x"
    by (simp add: search_def Let_def split: SplayNode.split)
  then show ?thesis by (simp add: entries_splay)
qed

lemma bst_search: "bst t \<Longrightarrow> bst (snd (search x t))"
  by (simp add: bst_def keys_def entries_search)

lemma in_keys: "(k, v) \<in> set (entries t) \<Longrightarrow> k \<in> set (keys t)"
  by (force simp: keys_def)

lemma splay_finds:
  assumes "bst t" and "(x, v) \<in> set (entries t)"
  shows "\<exists>l r. splay t x = Node l x v r"
proof -
  from assms(2) have "t \<noteq> Leaf" by auto
  then obtain a y w b where sp: "splay t x = Node a y w b"
    using splay_Leaf_iff[of t x] by (cases "splay t x") auto
  have b: "bst (Node a y w b)" using bst_splay[of t x] sp assms(1) by simp
  have mem: "(x, v) \<in> set (entries a) \<or> (x, v) = (y, w) \<or> (x, v) \<in> set (entries b)"
  proof -
    have "entries t = entries a @ (y, w) # entries b"
      using entries_splay[of t x] sp by simp
    then show ?thesis using assms(2) by auto
  qed
  have sp2: "(x < y \<longrightarrow> (\<forall>z\<in>set (keys a). z < x)) \<and> (y < x \<longrightarrow> (\<forall>z\<in>set (keys b). x < z))"
    by (rule splay_split[OF assms(1) sp])
  have ka: "\<And>z u. (z, u) \<in> set (entries a) \<Longrightarrow> z < y"
    using b in_keys[of _ _ a] by (auto simp: bst_Node)
  have kb: "\<And>z u. (z, u) \<in> set (entries b) \<Longrightarrow> y < z"
    using b in_keys[of _ _ b] by (auto simp: bst_Node)
  have xy: "x = y"
  proof (rule ccontr)
    assume "x \<noteq> y"
    then consider "x < y" | "y < x" by (metis not_less_iff_gr_or_eq)
    then show False
    proof cases
      case 1
      with mem kb[of x v] \<open>x \<noteq> y\<close> have "(x, v) \<in> set (entries a)" by auto
      then have "x \<in> set (keys a)" by (rule in_keys)
      with 1 sp2 show False by auto
    next
      case 2
      with mem ka[of x v] \<open>x \<noteq> y\<close> have "(x, v) \<in> set (entries b)" by auto
      then have "x \<in> set (keys b)" by (rule in_keys)
      with 2 sp2 show False by auto
    qed
  qed
  moreover have "v = w"
    using mem ka[of x v] kb[of x v] xy by auto
  ultimately show ?thesis using sp by simp
qed


lemma bst_insert_splay: "bst t \<Longrightarrow> bst (insert_splay x v t)"
proof (cases "splay t x")
  case Leaf
  assume "bst t"
  from Leaf have "t = Leaf" by (simp add: splay_Leaf_iff)
  then show ?thesis by (simp add: insert_splay_def bst_Node bst_Leaf keys_Leaf)
next
  case (Node a y w b)
  assume bt: "bst t"
  from Node have ne: "t \<noteq> Leaf" using splay_Leaf_iff[of t x] by auto
  have b: "bst (Node a y w b)" using bst_splay[of t x] Node bt by simp
  note sp2 = splay_split[OF bt Node]
  show ?thesis
    using ne Node b sp2
    by (auto simp: insert_splay_def bst_Node bst_Leaf keys_Node keys_Leaf not_less_iff_gr_or_eq; blast intro: less_trans)
qed

lemma bst_do_tree_call: "bst t \<Longrightarrow> bst (do_tree_call t c)"
  by (cases c) (simp_all add: bst_insert_splay bst_search)

lemma bst_foldl: "bst t \<Longrightarrow> bst (foldl do_tree_call t cs)"
  by (induction cs arbitrary: t) (simp_all add: bst_do_tree_call)


text \<open>
  Claim C10. \<open>search(key)\<close> leaves the stored pairs as they were: the in-order list of
  (key, value) pairs of the tree after the call is the list before it, for every tree and
  every key, so no pair is added, removed or altered; only the shape changes.
\<close>

theorem search_preserves_contents:
  "entries (snd (search x t)) = entries t \<and> set (entries (snd (search x t))) = set (entries t)"
  by (simp add: entries_search)

text \<open>
  Claim C3. On a tree that satisfies the ordering invariant and stores the pair
  \<open>(x, v)\<close>, \<open>search(x)\<close> returns \<open>v\<close> and the root afterwards is the node with key
  \<open>x\<close> (and value \<open>v\<close>).
\<close>

theorem search_hit:
  "bst t \<Longrightarrow> (x, v) \<in> set (entries t) \<Longrightarrow> \<exists>l r. search x t = (Some v, Node l x v r)"
  using splay_finds[of t x v] by (auto simp: search_def)

theorem search_hit_witness:
  "bst (Node (Node Leaf (1::int) (10::int) Leaf) 2 20 (Node Leaf 3 30 Leaf))
   \<and> (1, 10) \<in> set (entries (Node (Node Leaf (1::int) (10::int) Leaf) 2 20 (Node Leaf 3 30 Leaf)))
   \<and> (\<exists>l r. search 1 (Node (Node Leaf (1::int) (10::int) Leaf) 2 20 (Node Leaf 3 30 Leaf))
        = (Some 10, Node l 1 10 r))"
proof -
  have b: "bst (Node (Node Leaf (1::int) (10::int) Leaf) 2 20 (Node Leaf 3 30 Leaf))"
    by (simp add: bst_def keys_def)
  have m: "(1, 10) \<in> set (entries (Node (Node Leaf (1::int) (10::int) Leaf) 2 20 (Node Leaf 3 30 Leaf)))"
    by simp
  show ?thesis using b m search_hit[OF b m] by blast
qed

text \<open>
  Claim C4. Starting from the empty tree, after any sequence of \<open>insert\<close> and \<open>search\<close>
  calls the keys in in-order are strictly increasing.
\<close>

theorem bst_preserved: "bst (foldl do_tree_call Leaf calls)"
  by (rule bst_foldl[OF bst_Leaf])

subsection \<open>\<open>fibonacci_splay\<close>\<close>

lemma memo_ok_iff: "memo_ok t = (\<forall>(k, v)\<in>set (entries t). 0 \<le> k \<longrightarrow> v = fib (nat k))"
  by (simp add: memo_ok_def list_all_iff)

lemma entries_insert_splay:
  "set (entries (insert_splay x v t)) \<subseteq> insert (x, v) (set (entries t))"
proof (cases "splay t x")
  case Leaf
  then have "t = Leaf" by (simp add: splay_Leaf_iff)
  then show ?thesis by (simp add: insert_splay_def)
next
  case (Node a y w b)
  then have ne: "t \<noteq> Leaf" using splay_Leaf_iff[of t x] by auto
  have "entries t = entries a @ (y, w) # entries b"
    using entries_splay[of t x] Node by simp
  then show ?thesis using ne Node by (auto simp: insert_splay_def)
qed

lemma memo_ok_insert: "memo_ok t \<Longrightarrow> (0 \<le> x \<longrightarrow> v = fib (nat x)) \<Longrightarrow> memo_ok (insert_splay x v t)"
  unfolding memo_ok_iff using entries_insert_splay[of x v t] by blast

lemma search_Some: "search x t = (Some v, t1) \<Longrightarrow> (x, v) \<in> set (entries t) \<and> entries t1 = entries t"
proof -
  assume a: "search x t = (Some v, t1)"
  have e: "entries (splay t x) = entries t" by (rule entries_splay)
  show ?thesis
  proof (cases "splay t x")
    case Leaf
    with a show ?thesis by (simp add: search_def Let_def)
  next
    case (Node l k w r)
    with a have kw: "k = x \<and> w = v \<and> t1 = splay t x"
      by (auto simp: search_def Let_def split: if_splits)
    have "entries t = entries l @ (k, w) # entries r" using Node e by simp
    with kw e show ?thesis by simp
  qed
qed

lemma search_None: "search x t = (None, t1) \<Longrightarrow> entries t1 = entries t"
  using entries_search[of x t] by simp

lemma fib_rec: "2 \<le> n \<Longrightarrow> fib (nat n) = fib (nat (n - 1)) + fib (nat (n - 2))"
proof -
  assume "2 \<le> n"
  then have "nat n = Suc (Suc (nat (n - 2)))" and "nat (n - 1) = Suc (nat (n - 2))" by simp_all
  then show ?thesis by simp
qed

lemma fib_small: "0 \<le> n \<Longrightarrow> n < 2 \<Longrightarrow> fib (nat n) = n"
proof -
  assume "0 \<le> n" "n < 2"
  then have "n = 0 \<or> n = 1" by auto
  then show ?thesis by auto
qed

declare fibonacci_splay.simps [simp del]

text \<open>
  Claim C5, as amended. For every \<open>n \<ge> 0\<close> and every tree in which each stored pair
  \<open>(k, v)\<close> with \<open>k \<ge> 0\<close> has \<open>v = fib k\<close> (the empty tree, and every tree that
  earlier calls of \<open>fibonacci_splay\<close> have filled), \<open>fibonacci_splay(n, tree)\<close> returns
  the \<open>n\<close>-th Fibonacci number, and the tree it leaves has the same property.
\<close>

theorem fibonacci_splay_ok:
  "memo_ok tree \<Longrightarrow> 0 \<le> n \<Longrightarrow>
     fst (fibonacci_splay n tree) = fib (nat n) \<and> memo_ok (snd (fibonacci_splay n tree))"
proof (induction n tree rule: fibonacci_splay.induct)
  case (1 n tree)
  obtain c t1 where s: "search n tree = (c, t1)" by (cases "search n tree")
  show ?case
  proof (cases c)
    case (Some cached_val)
    with s have "(n, cached_val) \<in> set (entries tree) \<and> entries t1 = entries tree"
      using search_Some[of n tree cached_val t1] by simp
    then have "cached_val = fib (nat n)" and "memo_ok t1"
      using "1.prems" by (auto simp: memo_ok_iff)
    then show ?thesis using s Some by (subst (1 2) fibonacci_splay.simps) simp
  next
    case None
    with s have "entries t1 = entries tree" using search_None by blast
    then have ok1: "memo_ok t1" using "1.prems"(1) by (simp add: memo_ok_def)
    show ?thesis
    proof (cases "n < 2")
      case True
      then have "fib (nat n) = n" using "1.prems"(2) by (simp add: fib_small)
      then show ?thesis using s None True ok1
        by (subst (1 2) fibonacci_splay.simps) (simp add: memo_ok_insert)
    next
      case False
      obtain a t2 where f1: "fibonacci_splay (n - 1) t1 = (a, t2)"
        by (cases "fibonacci_splay (n - 1) t1")
      obtain b t3 where f2: "fibonacci_splay (n - 2) t2 = (b, t3)"
        by (cases "fibonacci_splay (n - 2) t2")
      have ih1: "a = fib (nat (n - 1)) \<and> memo_ok t2"
        using "1.IH"(1)[OF s[symmetric] None False ok1] False f1 by simp
      have ih2: "b = fib (nat (n - 2)) \<and> memo_ok t3"
        using "1.IH"(2)[OF s[symmetric] None False f1[symmetric]] ih1 False f2 by simp
      have "a + b = fib (nat n)" using ih1 ih2 False by (simp add: fib_rec)
      then show ?thesis using s None False f1 f2 ih2
        by (subst (1 2) fibonacci_splay.simps) (simp add: memo_ok_insert)
    qed
  qed
qed

theorem fibonacci_splay_ok_witness:
  "memo_ok (Node Leaf 1 1 Leaf) \<and> (0::int) \<le> 5
   \<and> fst (fibonacci_splay 5 (Node Leaf 1 1 Leaf)) = fib (nat 5)
   \<and> memo_ok (snd (fibonacci_splay 5 (Node Leaf 1 1 Leaf)))"
proof -
  have h1: "memo_ok (Node Leaf 1 1 Leaf)" by (simp add: memo_ok_def)
  have h2: "(0::int) \<le> 5" by simp
  show ?thesis using h1 h2 fibonacci_splay_ok[OF h1 h2] by simp
qed

text \<open>
  Claim C5 as stated fails: a tree that already stores \<open>(3, 10)\<close> makes
  \<open>fibonacci_splay(3, tree)\<close> return the stored 10, while the third Fibonacci number
  is 2.
\<close>

theorem fibonacci_splay_stale_counterexample:
  "fst (fibonacci_splay 3 (insert_splay 3 10 Leaf)) = 10 \<and> fib (nat 3) = 2
   \<and> fst (fibonacci_splay 3 (insert_splay 3 10 Leaf)) \<noteq> fib (nat 3)"
  by (simp add: fibonacci_splay.simps insert_splay_def search_def Let_def splay_root numeral_3_eq_3)

section \<open>Properties of the LRU cache\<close>

subsection \<open>The three methods on the underlying list\<close>

lemma filter_od_setitem:
  "filter (\<lambda>p. fst p \<noteq> k) (od_setitem k v d) = filter (\<lambda>p. fst p \<noteq> k) d"
  by (induction k v d rule: od_setitem.induct) auto

lemma od_setitem_present: "map_of (od_setitem k v d) k = Some v"
  by (induction k v d rule: od_setitem.induct) auto

lemma od_setitem_nonempty: "od_setitem k v d \<noteq> []"
  by (induction k v d rule: od_setitem.induct) auto

lemma move_after_setitem:
  "od_move_to_end k (od_setitem k v d) = filter (\<lambda>p. fst p \<noteq> k) d @ [(k, v)]"
  by (simp add: od_move_to_end_def od_setitem_present filter_od_setitem)

lemma od_popitem_first_tl: "od_popitem_first d = tl d"
  by (cases d) simp_all

lemma cache_put:
  "cache (put k v c) =
     (if capacity c < int (length (filter (\<lambda>p. fst p \<noteq> k) (cache c))) + 1
      then tl (filter (\<lambda>p. fst p \<noteq> k) (cache c) @ [(k, v)])
      else filter (\<lambda>p. fst p \<noteq> k) (cache c) @ [(k, v)])"
  by (simp add: put_def move_after_setitem od_popitem_first_tl)

lemma capacity_put: "capacity (put k v c) = capacity c"
  by (simp add: put_def Let_def)

lemma map_of_filter_other: "map_of (filter (\<lambda>p. fst p \<noteq> k) d) k = None"
  by (induction d) auto

lemma map_of_moved: "map_of d k = Some v \<Longrightarrow> map_of (od_move_to_end k d) k = Some v"
  by (simp add: od_move_to_end_def map_add_Some_iff map_of_filter_other)

lemma fst_get: "fst (get k c) = map_of (cache c) k"
  by (cases "map_of (cache c) k") (simp_all add: get_def Let_def map_of_moved)

lemma cache_get:
  "cache (snd (get k c)) = (case map_of (cache c) k of None \<Rightarrow> cache c
      | Some v \<Rightarrow> filter (\<lambda>p. fst p \<noteq> k) (cache c) @ [(k, v)])"
  by (cases "map_of (cache c) k") (simp_all add: get_def Let_def od_move_to_end_def)

lemma capacity_get: "capacity (snd (get k c)) = capacity c"
  by (cases "map_of (cache c) k") (simp_all add: get_def Let_def)

lemma od_delitem_filter: "od_delitem k d = filter (\<lambda>p. fst p \<noteq> k) d"
  by (simp add: od_delitem_def)

lemma fold_od_delitem: "fold od_delitem ks d = filter (\<lambda>p. fst p \<notin> set ks) d"
proof (induction ks arbitrary: d)
  case Nil
  then show ?case by simp
next
  case (Cons k ks)
  have "fold od_delitem (k # ks) d = fold od_delitem ks (od_delitem k d)" by simp
  also have "\<dots> = filter (\<lambda>p. fst p \<notin> set ks) (od_delitem k d)" by (rule Cons.IH)
  also have "\<dots> = filter (\<lambda>p. fst p \<notin> set ks) (filter (\<lambda>p. fst p \<noteq> k) d)"
    by (simp only: od_delitem_filter)
  also have "\<dots> = filter (\<lambda>p. fst p \<notin> set (k # ks)) d"
    by (induction d) auto
  finally show ?case .
qed

lemma cache_invalidate: "cache (invalidate f c) = filter (\<lambda>p. \<not> f (fst p)) (cache c)"
proof -
  have "filter (\<lambda>p. fst p \<notin> set (filter f (map fst (cache c)))) (cache c)
        = filter (\<lambda>p. \<not> f (fst p)) (cache c)"
    by (rule filter_cong) auto
  then show ?thesis by (simp add: invalidate_def Let_def fold_od_delitem)
qed

lemma capacity_invalidate: "capacity (invalidate f c) = capacity c"
  by (simp add: invalidate_def Let_def)

lemma length_filter_present:
  "map_of d k = Some v \<Longrightarrow> length (filter (\<lambda>p. fst p \<noteq> k) d) < length d"
proof -
  assume "map_of d k = Some v"
  then have "(k, v) \<in> set d" by (rule map_of_SomeD)
  then show ?thesis by (intro length_filter_less[of "(k, v)"]) auto
qed

lemma size_call:
  "int (length (cache c)) \<le> capacity c \<Longrightarrow>
     int (length (cache (do_cache_call c call))) \<le> capacity (do_cache_call c call)
     \<and> capacity (do_cache_call c call) = capacity c"
proof (cases call)
  case (Get k)
  assume inv: "int (length (cache c)) \<le> capacity c"
  show ?thesis
  proof (cases "map_of (cache c) k")
    case None
    then show ?thesis using inv Get by (simp add: cache_get capacity_get)
  next
    case (Some v)
    then show ?thesis using inv Get length_filter_present[OF Some]
      by (simp add: cache_get capacity_get)
  qed
next
  case (Put k v)
  assume inv: "int (length (cache c)) \<le> capacity c"
  define m where "m = int (length (filter (\<lambda>p. fst p \<noteq> k) (cache c)))"
  have "m \<le> int (length (cache c))" by (simp add: m_def)
  then have "m \<le> capacity c" using inv by linarith
  then show ?thesis using Put by (simp add: cache_put capacity_put m_def[symmetric])
next
  case (Invalidate f)
  assume inv: "int (length (cache c)) \<le> capacity c"
  define m where "m = int (length (filter (\<lambda>p. \<not> f (fst p)) (cache c)))"
  have "m \<le> int (length (cache c))" by (simp add: m_def)
  then have "m \<le> capacity c" using inv by linarith
  then show ?thesis using Invalidate by (simp add: cache_invalidate capacity_invalidate m_def[symmetric])
qed

lemma size_calls:
  "int (length (cache c)) \<le> capacity c \<Longrightarrow>
     int (length (cache (foldl do_cache_call c calls))) \<le> capacity c
     \<and> capacity (foldl do_cache_call c calls) = capacity c"
proof (induction calls arbitrary: c)
  case Nil
  then show ?case by simp
next
  case (Cons call calls)
  from size_call[OF Cons.prems, of call] Cons.IH[of "do_cache_call c call"]
  show ?case by simp
qed

text \<open>
  Claim C2. A cache constructed with a positive capacity holds at most that many entries
  after each call of any sequence of \<open>get\<close>, \<open>put\<close> and \<open>invalidate\<close> calls: the bound
  holds after the first \<open>n\<close> calls, for every \<open>n\<close>.
\<close>

theorem capacity_invariant:
  "0 < cap \<Longrightarrow> LRUCache_init cap = Inr c \<Longrightarrow>
     int (length (cache (foldl do_cache_call c (take n calls)))) \<le> cap"
proof -
  assume "0 < cap" and "LRUCache_init cap = Inr c"
  then have "int (length (cache c)) \<le> capacity c" and "capacity c = cap"
    by (auto simp: LRUCache_init_def)
  then show ?thesis using size_calls[of c "take n calls"] by simp
qed

theorem capacity_invariant_witness:
  "(0::int) < 1
   \<and> LRUCache_init 1 = Inr (\<lparr>capacity = 1, cache = []\<rparr> :: (int, int) LRUCache)
   \<and> int (length (cache (foldl do_cache_call (\<lparr>capacity = 1, cache = []\<rparr> :: (int, int) LRUCache)
         (take 2 [Put 1 10, Put 2 20, Get 1])))) \<le> 1"
proof -
  have h1: "(0::int) < 1" by simp
  have h2: "LRUCache_init 1 = Inr (\<lparr>capacity = 1, cache = []\<rparr> :: (int, int) LRUCache)"
    by (simp add: LRUCache_init_def)
  show ?thesis using h1 h2 capacity_invariant[OF h1 h2, of 2 "[Put 1 10, Put 2 20, Get 1]"] by blast
qed

subsection \<open>Invalidation, construction and index errors\<close>

lemma map_of_filter_None: "\<not> P k \<Longrightarrow> map_of (filter (\<lambda>p. P (fst p)) d) k = None"
  by (induction d) auto

lemma py_setitem_in_range:
  "0 \<le> i \<Longrightarrow> i < int (length xs) \<Longrightarrow> py_setitem xs i v = Inr (xs[nat i := v])"
  by (simp add: py_setitem_def)

text \<open>
  Claim C6. For every cache and every index \<open>i\<close> of the array, \<open>update_with_cache\<close>
  succeeds and afterwards \<open>get((L, R))\<close> returns \<open>None\<close> for every key with
  \<open>L \<le> i \<le> R\<close>.
\<close>

theorem invalidation_complete:
  "0 \<le> i \<Longrightarrow> i < int (length array) \<Longrightarrow> L \<le> i \<Longrightarrow> i \<le> R \<Longrightarrow>
     \<exists>array' c'. update_with_cache array i v c = Inr (array', c') \<and> fst (get (L, R) c') = None"
proof -
  assume r: "0 \<le> i" "i < int (length array)" and k: "L \<le> i" "i \<le> R"
  have u: "update_with_cache array i v c = Inr (array[nat i := v], invalidate (condition i) c)"
    using r by (simp add: update_with_cache_def py_setitem_in_range)
  have "\<not> \<not> condition i (L, R)" using k by (simp add: condition_def)
  then have "map_of (filter (\<lambda>p. \<not> condition i (fst p)) (cache c)) (L, R) = None"
    by (rule map_of_filter_None)
  then have "fst (get (L, R) (invalidate (condition i) c)) = None"
    by (simp add: fst_get cache_invalidate)
  with u show ?thesis by blast
qed

theorem invalidation_complete_witness:
  "(0::int) \<le> 1 \<and> (1::int) < int (length [1, 2, 3 :: int]) \<and> (0::int) \<le> 1 \<and> (1::int) \<le> 2
   \<and> (\<exists>array' c'. update_with_cache [1, 2, 3] 1 7 \<lparr>capacity = 5, cache = [((0, 2), 6), ((2, 2), 3)]\<rparr>
          = Inr (array', c') \<and> fst (get (0, 2) c') = None)"
proof -
  have h1: "(0::int) \<le> 1" by simp
  have h2: "(1::int) < int (length [1, 2, 3 :: int])" by simp
  have h3: "(1::int) \<le> 2" by simp
  show ?thesis
    using h1 h2 h3
      invalidation_complete[OF h1 h2 h1 h3, of 7 "\<lparr>capacity = 5, cache = [((0, 2), 6), ((2, 2), 3)]\<rparr>"]
    by blast
qed

lemma empty_stays_empty:
  "capacity c \<le> 0 \<Longrightarrow> cache c = [] \<Longrightarrow> cache (do_cache_call c call) = [] \<and> capacity (do_cache_call c call) = capacity c"
  by (cases call) (simp_all add: cache_get capacity_get cache_put capacity_put cache_invalidate capacity_invalidate)

lemma empty_stays_empty_calls:
  "capacity c \<le> 0 \<Longrightarrow> cache c = [] \<Longrightarrow> cache (foldl do_cache_call c calls) = []"
proof (induction calls arbitrary: c)
  case Nil
  then show ?case by simp
next
  case (Cons call calls)
  from empty_stays_empty[OF Cons.prems, of call] Cons.IH[of "do_cache_call c call"] Cons.prems(1)
  show ?case by simp
qed

text \<open>
  Claim C8, as amended. Construction has no check: for every capacity argument, zero and
  negative ones included, it succeeds with an empty cache that stores the argument. A
  cache built with a non-positive capacity stays empty under every sequence of calls.
\<close>

theorem init_never_fails:
  "\<exists>c. LRUCache_init cap = Inr c \<and> capacity c = cap \<and> cache c = []
       \<and> (cap \<le> 0 \<longrightarrow> cache (foldl do_cache_call c calls) = [])"
  using empty_stays_empty_calls[of "\<lparr>capacity = cap, cache = []\<rparr>" calls]
  by (simp add: LRUCache_init_def)

theorem init_never_fails_witness:
  "(0::int) \<le> 0
   \<and> (\<exists>c. LRUCache_init 0 = Inr c \<and> capacity c = 0 \<and> cache c = []
          \<and> cache (foldl do_cache_call c [Put (1::int) (10::int), Get 1]) = [])"
  using init_never_fails[of 0 "[Put (1::int) (10::int), Get 1]"] by simp

text \<open>
  Claim C8 as stated fails: construction with capacity 0 returns a cache and no error.
\<close>

theorem init_zero_counterexample:
  "LRUCache_init 0 = Inr (\<lparr>capacity = 0, cache = []\<rparr> :: (int \<times> int, int) LRUCache)
   \<and> \<not> (\<exists>e. (LRUCache_init 0 :: error + (int \<times> int, int) LRUCache) = Inl e)"
  by (simp add: LRUCache_init_def)

text \<open>
  Claim C9 as stated fails: on the array \<open>[1, 2, 3]\<close> the range query \<open>(0, 5)\<close>, whose
  upper bound is outside the array, returns 6, the sum over the truncated range, and
  stores it in the cache.
\<close>

theorem range_sum_truncated_counterexample:
  "range_sum_with_cache [1, 2, 3] 0 5 \<lparr>capacity = 10, cache = []\<rparr>
     = (6, \<lparr>capacity = 10, cache = [((0, 5), 6)]\<rparr>)
   \<and> range_sum_no_cache [1, 2, 3] 0 5 = 6"
  by (simp add: range_sum_with_cache_def range_sum_no_cache_def get_def put_def
      od_move_to_end_def py_slice_def py_slice_bound_def Let_def)

lemma py_slice_clamped:
  "0 \<le> L \<Longrightarrow> int (length xs) \<le> R + 1 \<Longrightarrow> py_slice xs L (R + 1) = drop (nat L) xs"
  by (auto simp: py_slice_def py_slice_bound_def Let_def)

lemma update_no_cache_outcome_agrees:
  "update_no_cache array index v =
     (case update_no_cache_outcome array index v of
        (Some e, array') \<Rightarrow> Inl e
      | (None, array') \<Rightarrow> Inr array')"
  by (simp add: update_no_cache_def update_no_cache_outcome_def split: sum.split)

lemma update_with_cache_outcome_agrees:
  "update_with_cache array index v c =
     (case update_with_cache_outcome array index v c of
        (Some e, array', c') \<Rightarrow> Inl e
      | (None, array', c') \<Rightarrow> Inr (array', c'))"
  by (simp add: update_with_cache_def update_with_cache_outcome_def split: sum.split)

lemma range_sum_with_cache_hit:
  "map_of (cache c) (L, R) = Some s \<Longrightarrow>
     range_sum_with_cache array L R c = (s, snd (get (L, R) c))"
proof -
  assume h: "map_of (cache c) (L, R) = Some s"
  then have "fst (get (L, R) c) = Some s" by (simp add: fst_get)
  then obtain c1 where g: "get (L, R) c = (Some s, c1)"
    by (cases "get (L, R) c") simp
  then show ?thesis by (simp add: range_sum_with_cache_def)
qed

text \<open>
  Claim C9, as amended. An update whose index is \<open>len(array)\<close> or more, or below
  \<open>-len(array)\<close>, fails with \<open>IndexError\<close> at the assignment, before any mutation: when
  the exception leaves the function the array and the cache are exactly as they were
  before the call (with a cache), and so is the array (without one). A range query has
  no bounds check and does not fail. With \<open>0 \<le> L\<close> and \<open>R\<close> at or beyond the last index,
  \<open>range_sum_no_cache\<close> returns the sum of the elements from \<open>L\<close> to the end of the
  array; \<open>range_sum_with_cache\<close> returns that sum and stores it under \<open>(L, R)\<close> when
  the key is not cached, and returns the stored value, moving the key to the end, when
  it is.
\<close>

theorem out_of_range_behaviour:
  "(index < - int (length array) \<or> int (length array) \<le> index \<longrightarrow>
      update_no_cache array index v = Inl IndexError
      \<and> update_no_cache_outcome array index v = (Some IndexError, array)
      \<and> update_with_cache array index v c = Inl IndexError
      \<and> update_with_cache_outcome array index v c = (Some IndexError, array, c))
   \<and> (0 \<le> L \<and> int (length array) \<le> R + 1 \<longrightarrow>
      range_sum_no_cache array L R = sum_list (drop (nat L) array)
      \<and> (map_of (cache c) (L, R) = None \<longrightarrow>
           range_sum_with_cache array L R c
             = (sum_list (drop (nat L) array), put (L, R) (sum_list (drop (nat L) array)) c))
      \<and> (map_of (cache c) (L, R) = Some s \<longrightarrow>
           range_sum_with_cache array L R c = (s, snd (get (L, R) c))))"
proof (intro conjI impI)
  assume "index < - int (length array) \<or> int (length array) \<le> index"
  then have e: "py_setitem array index v = Inl IndexError"
    by (auto simp: py_setitem_def Let_def)
  show "update_no_cache array index v = Inl IndexError"
    by (simp add: update_no_cache_def e)
  show "update_no_cache_outcome array index v = (Some IndexError, array)"
    by (simp add: update_no_cache_outcome_def e)
  show "update_with_cache array index v c = Inl IndexError"
    by (simp add: update_with_cache_def e)
  show "update_with_cache_outcome array index v c = (Some IndexError, array, c)"
    by (simp add: update_with_cache_outcome_def e)
next
  assume r: "0 \<le> L \<and> int (length array) \<le> R + 1"
  then have sl: "py_slice array L (R + 1) = drop (nat L) array"
    by (simp add: py_slice_clamped)
  show "range_sum_no_cache array L R = sum_list (drop (nat L) array)"
    by (simp add: range_sum_no_cache_def sl)
  {
    assume "map_of (cache c) (L, R) = None"
    then have "get (L, R) c = (None, c)" by (simp add: get_def)
    then show "range_sum_with_cache array L R c
        = (sum_list (drop (nat L) array), put (L, R) (sum_list (drop (nat L) array)) c)"
      by (simp add: range_sum_with_cache_def sl Let_def)
  }
  {
    assume "map_of (cache c) (L, R) = Some s"
    then show "range_sum_with_cache array L R c = (s, snd (get (L, R) c))"
      by (rule range_sum_with_cache_hit)
  }
qed

theorem out_of_range_behaviour_witness:
  "int (length [1, 2, 3 :: int]) \<le> 3
   \<and> update_no_cache [1, 2, 3] 3 9 = Inl IndexError
   \<and> update_no_cache_outcome [1, 2, 3] 3 9 = (Some IndexError, [1, 2, 3])
   \<and> update_with_cache [1, 2, 3] 3 9 \<lparr>capacity = 10, cache = [((0, 2), 6)]\<rparr> = Inl IndexError
   \<and> update_with_cache_outcome [1, 2, 3] 3 9 \<lparr>capacity = 10, cache = [((0, 2), 6)]\<rparr>
         = (Some IndexError, [1, 2, 3], \<lparr>capacity = 10, cache = [((0, 2), 6)]\<rparr>)
   \<and> (0::int) \<le> 1 \<and> int (length [1, 2, 3 :: int]) \<le> 5 + 1
   \<and> map_of (cache (\<lparr>capacity = 10, cache = [((0, 2), 6)]\<rparr> :: (int \<times> int, int) LRUCache)) (1, 5) = None
   \<and> range_sum_no_cache [1, 2, 3] 1 5 = 5
   \<and> range_sum_with_cache [1, 2, 3] 1 5 \<lparr>capacity = 10, cache = [((0, 2), 6)]\<rparr>
         = (5, \<lparr>capacity = 10, cache = [((0, 2), 6), ((1, 5), 5)]\<rparr>)
   \<and> map_of (cache (\<lparr>capacity = 10, cache = [((1, 5), 999), ((0, 2), 6)]\<rparr> :: (int \<times> int, int) LRUCache)) (1, 5)
         = Some 999
   \<and> range_sum_with_cache [1, 2, 3] 1 5 \<lparr>capacity = 10, cache = [((1, 5), 999), ((0, 2), 6)]\<rparr>
         = (999, \<lparr>capacity = 10, cache = [((0, 2), 6), ((1, 5), 999)]\<rparr>)"
proof -
  let ?c = "\<lparr>capacity = 10, cache = [((0, 2), 6)]\<rparr> :: (int \<times> int, int) LRUCache"
  let ?d = "\<lparr>capacity = 10, cache = [((1, 5), 999), ((0, 2), 6)]\<rparr> :: (int \<times> int, int) LRUCache"
  have miss: "map_of (cache ?c) (1, 5) = None" by simp
  have hit: "map_of (cache ?d) (1, 5) = Some 999" by simp
  have p: "put (1, 5) 5 ?c = \<lparr>capacity = 10, cache = [((0, 2), 6), ((1, 5), 5)]\<rparr>"
    by (simp add: put_def od_move_to_end_def Let_def)
  have g: "snd (get (1, 5) ?d) = \<lparr>capacity = 10, cache = [((0, 2), 6), ((1, 5), 999)]\<rparr>"
    by (simp add: get_def od_move_to_end_def Let_def)
  show ?thesis
    using out_of_range_behaviour[of 3 "[1, 2, 3]" 9 ?c 1 5 0]
      out_of_range_behaviour[of 3 "[1, 2, 3]" 9 ?d 1 5 999] miss hit p g
    by simp
qed

subsection \<open>Eviction order\<close>

lemma put_all_snoc: "put_all c (kvs @ [(k, v)]) = put k v (put_all c kvs)"
  by (simp add: put_all_def)

lemma capacity_put_all: "capacity (put_all c kvs) = capacity c"
  by (induction kvs rule: rev_induct) (auto simp: put_all_def capacity_put)

lemma filter_fresh: "k \<notin> fst ` set kvs \<Longrightarrow> filter (\<lambda>p. fst p \<noteq> k) kvs = kvs"
  by (induction kvs) auto

lemma put_all_suffix:
  "int (length (cache c)) \<le> capacity c \<Longrightarrow> distinct (map fst kvs) \<Longrightarrow>
   int (length kvs) \<le> capacity c \<Longrightarrow>
     \<exists>A. cache (put_all c kvs) = A @ kvs \<and> int (length (A @ kvs)) \<le> capacity c"
proof (induction kvs rule: rev_induct)
  case Nil
  then show ?case by (simp add: put_all_def)
next
  case (snoc p kvs)
  obtain k v where p: "p = (k, v)" by (cases p)
  from snoc.prems have d: "distinct (map fst kvs)" and fresh: "k \<notin> fst ` set kvs"
    and len: "int (length kvs) + 1 \<le> capacity c"
    by (auto simp: p)
  from snoc.IH[OF snoc.prems(1) d] len obtain A where
    A: "cache (put_all c kvs) = A @ kvs" "int (length (A @ kvs)) \<le> capacity c"
    by auto
  let ?F = "filter (\<lambda>p. fst p \<noteq> k) A"
  have f: "filter (\<lambda>p. fst p \<noteq> k) (cache (put_all c kvs)) = ?F @ kvs"
    using A(1) fresh by (simp add: filter_fresh)
  have lF: "length ?F \<le> length A" by simp
  show ?case
  proof (cases "capacity c < int (length (?F @ kvs)) + 1")
    case False
    then have "cache (put_all c (kvs @ [p])) = ?F @ kvs @ [p]"
      by (simp add: p put_all_snoc cache_put f capacity_put_all)
    moreover have "int (length (?F @ kvs @ [p])) \<le> capacity c" using False by simp
    ultimately show ?thesis by (intro exI[of _ ?F]) simp
  next
    case True
    then have "?F \<noteq> []" using len by auto
    then have "tl (?F @ kvs @ [p]) = tl ?F @ kvs @ [p]" by simp
    with True have "cache (put_all c (kvs @ [p])) = tl ?F @ kvs @ [p]"
      by (simp add: p put_all_snoc cache_put f capacity_put_all)
    moreover have "int (length (tl ?F @ kvs @ [p])) \<le> capacity c"
    proof -
      have "length (tl ?F) + 1 \<le> length A" using \<open>?F \<noteq> []\<close> lF by (cases ?F) auto
      then show ?thesis using A(2) by simp
    qed
    ultimately show ?thesis by (intro exI[of _ "tl ?F"]) simp
  qed
qed

lemma put_all_full:
  assumes "int (length (cache c)) \<le> capacity c" "distinct (map fst kvs)"
    "int (length kvs) = capacity c"
  shows "cache (put_all c kvs) = kvs"
proof -
  from put_all_suffix[OF assms(1,2)] assms(3) obtain A where
    "cache (put_all c kvs) = A @ kvs" "int (length (A @ kvs)) \<le> capacity c" by auto
  with assms(3) show ?thesis by auto
qed

lemma put_all_overflow:
  assumes "int (length (cache c)) \<le> capacity c" "distinct (map fst (kvs @ [(k, v)]))"
    "int (length kvs) = capacity c"
  shows "cache (put_all c (kvs @ [(k, v)])) = tl (kvs @ [(k, v)])"
proof -
  from assms(2) have d: "distinct (map fst kvs)" and fresh: "k \<notin> fst ` set kvs" by auto
  have "cache (put_all c kvs) = kvs" by (rule put_all_full[OF assms(1) d assms(3)])
  then show ?thesis using assms(3) fresh
    by (simp add: put_all_snoc cache_put capacity_put_all filter_fresh)
qed

lemma map_of_distinct: "distinct (map fst kvs) \<Longrightarrow> p \<in> set kvs \<Longrightarrow> map_of kvs (fst p) = Some (snd p)"
  by (cases p) simp

text \<open>
  Claim C7. Take a cache of positive capacity \<open>C\<close> that holds at most \<open>C\<close> entries (every
  cache built by the constructor and the three methods does) and put \<open>C + 1\<close> pairs with
  distinct keys, in order, with no other call in between. The first key is still there
  after the first \<open>C\<close> puts, it is gone after the last put, and every later key is
  retrievable with its value.
\<close>

theorem lru_eviction_order:
  assumes "0 < capacity c" and "int (length (cache c)) \<le> capacity c"
    and "distinct (map fst kvs)" and "int (length kvs) = capacity c + 1"
  shows "fst (get (fst (hd kvs)) (put_all c (butlast kvs))) = Some (snd (hd kvs))
       \<and> fst (get (fst (hd kvs)) (put_all c kvs)) = None
       \<and> (\<forall>p\<in>set (tl kvs). fst (get (fst p) (put_all c kvs)) = Some (snd p))"
proof -
  from assms(1,4) have ne: "kvs \<noteq> []" and ne2: "butlast kvs \<noteq> []" by (auto simp: butlast_conv_take)
  obtain k v where l: "last kvs = (k, v)" by (cases "last kvs")
  have split: "kvs = butlast kvs @ [(k, v)]" using ne l by (metis append_butlast_last_id)
  have lb: "int (length (butlast kvs)) = capacity c" using assms(1,4) by simp
  have db: "distinct (map fst (butlast kvs))" using assms(3) by (simp add: distinct_butlast map_butlast)
  have c1: "cache (put_all c (butlast kvs)) = butlast kvs"
    by (rule put_all_full[OF assms(2) db lb])
  have d2: "distinct (map fst (butlast kvs @ [(k, v)]))" using assms(3) split by simp
  have c2: "cache (put_all c kvs) = tl kvs"
    using put_all_overflow[OF assms(2) d2 lb] split by simp
  have hd_in: "hd kvs \<in> set (butlast kvs)" using ne2 ne split
    by (metis hd_append2 hd_in_set)
  have g1: "fst (get (fst (hd kvs)) (put_all c (butlast kvs))) = Some (snd (hd kvs))"
    using map_of_distinct[OF db hd_in] by (simp add: fst_get c1)
  have "fst (hd kvs) \<notin> fst ` set (tl kvs)" using assms(3) ne by (cases kvs) auto
  then have g2: "fst (get (fst (hd kvs)) (put_all c kvs)) = None"
    by (simp add: fst_get c2 map_of_eq_None_iff)
  have dt: "distinct (map fst (tl kvs))" using assms(3) by (simp add: distinct_tl map_tl)
  have g3: "\<forall>p\<in>set (tl kvs). fst (get (fst p) (put_all c kvs)) = Some (snd p)"
    using map_of_distinct[OF dt] by (simp add: fst_get c2)
  from g1 g2 g3 show ?thesis by blast
qed

theorem lru_eviction_order_witness:
  "(0::int) < capacity (\<lparr>capacity = 2, cache = [(7, 70)]\<rparr> :: (int, int) LRUCache)
   \<and> int (length (cache (\<lparr>capacity = 2, cache = [(7, 70)]\<rparr> :: (int, int) LRUCache))) \<le> 2
   \<and> distinct (map fst [(1::int, 10::int), (2, 20), (3, 30)])
   \<and> int (length [(1::int, 10::int), (2, 20), (3, 30)]) = 2 + 1
   \<and> fst (get 1 (put_all \<lparr>capacity = 2, cache = [(7, 70)]\<rparr> [(1::int, 10::int), (2, 20)])) = Some 10
   \<and> fst (get 1 (put_all \<lparr>capacity = 2, cache = [(7, 70)]\<rparr> [(1::int, 10::int), (2, 20), (3, 30)])) = None
   \<and> fst (get 2 (put_all \<lparr>capacity = 2, cache = [(7, 70)]\<rparr> [(1::int, 10::int), (2, 20), (3, 30)])) = Some 20
   \<and> fst (get 3 (put_all \<lparr>capacity = 2, cache = [(7, 70)]\<rparr> [(1::int, 10::int), (2, 20), (3, 30)])) = Some 30"
proof -
  let ?c = "\<lparr>capacity = 2, cache = [(7, 70)]\<rparr> :: (int, int) LRUCache"
  let ?kvs = "[(1::int, 10::int), (2, 20), (3, 30)]"
  have h1: "0 < capacity ?c" by simp
  have h2: "int (length (cache ?c)) \<le> capacity ?c" by simp
  have h3: "distinct (map fst ?kvs)" by simp
  have h4: "int (length ?kvs) = capacity ?c + 1" by simp
  show ?thesis using lru_eviction_order[OF h1 h2 h3 h4] by simp
qed

subsection \<open>The cache does not change the sums\<close>

lemma cache_sound_iff:
  "cache_sound array c = (\<forall>L R s. ((L, R), s) \<in> set (cache c) \<longrightarrow>
      0 \<le> L \<and> L \<le> R \<and> R < int (length array) \<and> s = range_sum_no_cache array L R)"
  by (auto simp: cache_sound_def list_all_iff)

lemma set_cache_get: "set (cache (snd (get k c))) \<subseteq> set (cache c)"
proof (cases "map_of (cache c) k")
  case None
  then show ?thesis by (simp add: cache_get)
next
  case (Some v)
  then have "(k, v) \<in> set (cache c)" by (rule map_of_SomeD)
  then show ?thesis using Some by (auto simp: cache_get)
qed

lemma set_cache_put: "set (cache (put k v c)) \<subseteq> insert (k, v) (set (cache c))"
proof -
  have "set (tl (filter (\<lambda>p. fst p \<noteq> k) (cache c) @ [(k, v)]))
        \<subseteq> set (filter (\<lambda>p. fst p \<noteq> k) (cache c) @ [(k, v)])"
    by (rule list.set_sel(2)[THEN subsetI]) simp
  then show ?thesis by (auto simp: cache_put)
qed

lemma sound_get: "cache_sound array c \<Longrightarrow> cache_sound array (snd (get k c))"
  unfolding cache_sound_iff using set_cache_get[of k c] by blast

lemma sound_put:
  "cache_sound array c \<Longrightarrow> 0 \<le> L \<Longrightarrow> L \<le> R \<Longrightarrow> R < int (length array) \<Longrightarrow>
     cache_sound array (put (L, R) (range_sum_no_cache array L R) c)"
  unfolding cache_sound_iff using set_cache_put[of "(L, R)" "range_sum_no_cache array L R" c] by blast

lemma py_slice_in_range:
  "0 \<le> L \<Longrightarrow> L \<le> R \<Longrightarrow> R < int (length xs) \<Longrightarrow>
     py_slice xs L (R + 1) = take (nat (R + 1) - nat L) (drop (nat L) xs)"
  by (simp add: py_slice_def py_slice_bound_def Let_def)

lemma slice_update_outside:
  assumes "0 \<le> L" "L \<le> R" "R < int (length xs)" "0 \<le> i" "i < int (length xs)"
    and "\<not> (L \<le> i \<and> i \<le> R)"
  shows "py_slice (xs[nat i := v]) L (R + 1) = py_slice xs L (R + 1)"
proof (cases "i < L")
  case True
  then have "nat i < nat L" using assms(4) by simp
  then have "drop (nat L) (xs[nat i := v]) = drop (nat L) xs" by simp
  then show ?thesis using assms(1-3) by (simp add: py_slice_in_range)
next
  case False
  with assms(6) have "R < i" by simp
  then have a: "nat L \<le> nat i" and b: "nat (R + 1) - nat L \<le> nat i - nat L"
    using assms(1,2) by simp_all
  have "take (nat (R + 1) - nat L) (drop (nat L) (xs[nat i := v]))
        = take (nat (R + 1) - nat L) ((drop (nat L) xs)[nat i - nat L := v])"
    using a by (simp add: drop_update_swap)
  also have "\<dots> = take (nat (R + 1) - nat L) (drop (nat L) xs)"
    using b by (rule take_update_cancel)
  finally show ?thesis using assms(1-3) by (simp add: py_slice_in_range)
qed

lemma sound_update:
  assumes "cache_sound array c" "0 \<le> i" "i < int (length array)"
  shows "cache_sound (array[nat i := v]) (invalidate (condition i) c)"
  unfolding cache_sound_iff
proof (intro allI impI)
  fix L R s
  assume "((L, R), s) \<in> set (cache (invalidate (condition i) c))"
  then have m: "((L, R), s) \<in> set (cache c)" and nc: "\<not> (L \<le> i \<and> i \<le> R)"
    by (auto simp: cache_invalidate condition_def)
  from assms(1) m have r: "0 \<le> L" "L \<le> R" "R < int (length array)"
    and s: "s = range_sum_no_cache array L R"
    unfolding cache_sound_iff by blast+
  have "range_sum_no_cache (array[nat i := v]) L R = range_sum_no_cache array L R"
    using slice_update_outside[OF r assms(2,3) nc] by (simp add: range_sum_no_cache_def)
  with r s show "0 \<le> L \<and> L \<le> R \<and> R < int (length (array[nat i := v]))
       \<and> s = range_sum_no_cache (array[nat i := v]) L R" by simp
qed

lemma range_sum_with_cache_sound:
  assumes "cache_sound array c" "0 \<le> L" "L \<le> R" "R < int (length array)"
  shows "fst (range_sum_with_cache array L R c) = range_sum_no_cache array L R
       \<and> cache_sound array (snd (range_sum_with_cache array L R c))"
proof (cases "map_of (cache c) (L, R)")
  case None
  then have g: "get (L, R) c = (None, c)" by (simp add: get_def)
  show ?thesis using sound_put[OF assms]
    by (simp add: range_sum_with_cache_def g Let_def range_sum_no_cache_def)
next
  case (Some s)
  then have "((L, R), s) \<in> set (cache c)" by (rule map_of_SomeD)
  with assms(1) have s: "s = range_sum_no_cache array L R" unfolding cache_sound_iff by blast
  obtain c1 where g: "get (L, R) c = (Some s, c1)"
    using fst_get[of "(L, R)" c] Some by (cases "get (L, R) c") simp
  then have "c1 = snd (get (L, R) c)" by simp
  then have "cache_sound array c1" using sound_get[OF assms(1)] by simp
  then show ?thesis using s by (simp add: range_sum_with_cache_def g)
qed

lemma run_equal:
  "cache_sound array c \<Longrightarrow> \<forall>q\<in>set qs. query_in_range (length array) q \<Longrightarrow>
     run_with_cache array c qs = run_no_cache array qs \<and> (\<exists>out. run_no_cache array qs = Inr out)"
proof (induction qs arbitrary: array c)
  case Nil
  then show ?case by simp
next
  case (Cons q qs)
  show ?case
  proof (cases q)
    case (Range L R)
    with Cons.prems(2) have r: "0 \<le> L" "L \<le> R" "R < int (length array)" by simp_all
    obtain s c' where rs: "range_sum_with_cache array L R c = (s, c')"
      by (cases "range_sum_with_cache array L R c")
    with range_sum_with_cache_sound[OF Cons.prems(1) r]
    have s: "s = range_sum_no_cache array L R" and snd: "cache_sound array c'" by simp_all
    from Cons.IH[OF snd] Cons.prems(2)
    have "run_with_cache array c' qs = run_no_cache array qs \<and> (\<exists>out. run_no_cache array qs = Inr out)"
      by simp
    then show ?thesis using Range rs s by auto
  next
    case (Update idx val)
    with Cons.prems(2) have r: "0 \<le> idx" "idx < int (length array)" by simp_all
    have u1: "update_no_cache array idx val = Inr (array[nat idx := val])"
      using r by (simp add: update_no_cache_def py_setitem_in_range)
    have u2: "update_with_cache array idx val c
               = Inr (array[nat idx := val], invalidate (condition idx) c)"
      using r by (simp add: update_with_cache_def py_setitem_in_range)
    have "\<forall>q\<in>set qs. query_in_range (length (array[nat idx := val])) q"
      using Cons.prems(2) by simp
    from Cons.IH[OF sound_update[OF Cons.prems(1) r] this]
    show ?thesis using Update u1 u2 by simp
  qed
qed

text \<open>
  Claim C1. For every array, every capacity and every sequence of range queries and point
  updates whose bounds are indices of the array (\<open>0 \<le> L \<le> R < len\<close>, \<open>0 \<le> index < len\<close>),
  the run over a freshly constructed cache returns the same sums, query by query, as the
  run without a cache, and neither run fails.
\<close>

theorem cache_transparency:
  "LRUCache_init cap = Inr c \<Longrightarrow> \<forall>q\<in>set qs. query_in_range (length array) q \<Longrightarrow>
     run_with_cache array c qs = run_no_cache array qs \<and> (\<exists>out. run_no_cache array qs = Inr out)"
proof -
  assume "LRUCache_init cap = Inr c" and r: "\<forall>q\<in>set qs. query_in_range (length array) q"
  then have "cache_sound array c" by (auto simp: LRUCache_init_def cache_sound_def)
  then show ?thesis using r by (rule run_equal)
qed

theorem cache_transparency_witness:
  "LRUCache_init 2 = Inr (\<lparr>capacity = 2, cache = []\<rparr> :: (int \<times> int, int) LRUCache)
   \<and> query_in_range (length [1, 2, 3, 4, 5 :: int]) (Range 1 3)
   \<and> query_in_range (length [1, 2, 3, 4, 5 :: int]) (Update 2 10)
   \<and> run_with_cache [1, 2, 3, 4, 5] \<lparr>capacity = 2, cache = []\<rparr> [Range 1 3, Update 2 10, Range 1 3]
       = run_no_cache [1, 2, 3, 4, 5] [Range 1 3, Update 2 10, Range 1 3]
   \<and> run_no_cache [1, 2, 3, 4, 5] [Range 1 3, Update 2 10, Range 1 3] = Inr [9, 16]"
proof -
  have h1: "LRUCache_init 2 = Inr (\<lparr>capacity = 2, cache = []\<rparr> :: (int \<times> int, int) LRUCache)"
    by (simp add: LRUCache_init_def)
  have h2: "\<forall>q\<in>set [Range 1 3, Update 2 10, Range 1 3]. query_in_range (length [1, 2, 3, 4, 5 :: int]) q"
    by simp
  have h3: "run_no_cache [1, 2, 3, 4, 5] [Range 1 3, Update 2 10, Range 1 3] = Inr [9, 16]"
    by (simp add: range_sum_no_cache_def update_no_cache_def py_setitem_def py_slice_def
        py_slice_bound_def Let_def)
  show ?thesis using h1 h3 cache_transparency[OF h1 h2] by simp
qed

end
